theory Spec2Isabelle
  imports Main "HOL-Library.AList" "HOL-Library.Multiset"
begin

section \<open>Data model\<close>

text \<open>
  A Python \<^verbatim>\<open>dict\<close> is an association list in insertion order: a lookup is
  \<^const>\<open>map_of\<close>, an item assignment \<^verbatim>\<open>d[k] = v\<close> is \<^const>\<open>AList.update\<close>
  (an existing key keeps its place, a new key goes to the end).

  The exceptions of \<^verbatim>\<open>api.py\<close>, one constructor for each place that raises:
\<close>

datatype error =
    ValueError_no_metadata  \<comment> \<open>\<^verbatim>\<open>raise ValueError('No package metadata provided')\<close>\<close>
  | ValueError_decode       \<comment> \<open>\<^verbatim>\<open>json.loads\<close> rejects the document\<close>
  | TypeError_none          \<comment> \<open>\<^verbatim>\<open>set.union(None)\<close>: \<^verbatim>\<open>'NoneType' object is not iterable\<close>\<close>
  | KeyError_name           \<comment> \<open>\<^verbatim>\<open>metadata['name']\<close> with no such key\<close>
  | ValueError_unpack       \<comment> \<open>\<^verbatim>\<open>dep, ver = string.split()\<close> and \<^verbatim>\<open>(dep_name, ver), = dep.items()\<close>\<close>
  | ValueError_multiple     \<comment> \<open>\<^verbatim>\<open>raise ValueError('Package defines multiple version specifiers ...')\<close>\<close>
  | KeyError_popitem        \<comment> \<open>\<^verbatim>\<open>popitem()\<close> on an empty dict\<close>
  | KeyError_lookup         \<comment> \<open>\<^verbatim>\<open>d[k]\<close> with no such key\<close>

type_synonym requirement = "(string \<times> string) list"
  \<comment> \<open>\<^verbatim>\<open>{dep_name: ver}\<close>\<close>
type_synonym package_requirements = "(string \<times> requirement list) list"
  \<comment> \<open>\<^verbatim>\<open>{package_name: [{dep_name: ver}, ...]}\<close>\<close>
type_synonym requirement_entry = "(string \<times> string list) list"
  \<comment> \<open>\<^verbatim>\<open>{package_name: [ver, ...], ..., 'version_specifiers': [ver, ...]}\<close>\<close>
type_synonym requirements = "(string \<times> requirement_entry) list"
  \<comment> \<open>\<^verbatim>\<open>{dep_name: {...}}\<close>\<close>

text \<open>
  The PEP 426 document after \<^verbatim>\<open>json.loads\<close>: the \<^verbatim>\<open>name\<close> key, and the other keys
  of the document with their lists of sub-groups \<^verbatim>\<open>{"extra": ..., "requires": [...]}\<close>.
  A key that a dict may lack is an \<open>option\<close>.
\<close>

record requirement_group =
  extra :: "string option"
  requires :: "string list option"

record metadata =
  name :: "string option"
  groups :: "(string \<times> requirement_group list) list"

text \<open>
  A Python \<^verbatim>\<open>set\<close> of strings is a list without repetitions; \<^verbatim>\<open>add\<close> puts a new
  element at the end. Python does not fix the order in which a set is iterated, so the
  statements below about the extractor's result speak of its entries as a multiset.
\<close>

definition set_add :: "'a \<Rightarrow> 'a list \<Rightarrow> 'a list" where
  "set_add x s = (if x \<in> set s then s else s @ [x])"

section \<open>\<^verbatim>\<open>build_package_requirements\<close> (api.py, lines 33--132)\<close>

text \<open>\<^verbatim>\<open>kwargs.get(key, True)\<close>.\<close>

definition kwargs_get :: "(string \<times> bool) list \<Rightarrow> string \<Rightarrow> bool" where
  "kwargs_get kwargs key = (case map_of kwargs key of None \<Rightarrow> True | Some b \<Rightarrow> b)"

text \<open>
  The inner function \<^verbatim>\<open>_get_requirements\<close> (lines 79--91). With more than one sub-group
  the loop returns the \<^verbatim>\<open>requires\<close> of the first one tagged \<^verbatim>\<open>'all'\<close>; when none is,
  the function falls off its end and returns \<^verbatim>\<open>None\<close>. \<^verbatim>\<open>req.get('requires')\<close> is
  \<^verbatim>\<open>None\<close> too when the sub-group has no such key.
\<close>

definition get_requirements :: "string \<Rightarrow> metadata \<Rightarrow> string list option" where
  "get_requirements key metadata =
    (let requirements = (case map_of (groups metadata) key of None \<Rightarrow> [] | Some gs \<Rightarrow> gs) in
     if length requirements > 1 then
       (case find (\<lambda>req. extra req = Some ''all'') requirements of
          Some req \<Rightarrow> requires req
        | None \<Rightarrow> None)
     else if length requirements > 0 then requires (requirements ! 0)
     else Some [])"

text \<open>\<^verbatim>\<open>requirements_list.union(other)\<close>: \<^verbatim>\<open>None\<close> is not iterable.\<close>

definition set_union :: "string list \<Rightarrow> string list option \<Rightarrow> error + string list" where
  "set_union s other =
    (case other of None \<Rightarrow> Inl TypeError_none | Some xs \<Rightarrow> Inr (fold set_add xs s))"

text \<open>
  Lines 100--118 are the same three lines five times, once for each of these keys, in
  this order.
\<close>

definition requirement_keys :: "string list" where
  "requirement_keys =
     [''run_requires'', ''test_requires'', ''meta_requires'', ''build_requires'', ''dev_requires'']"

fun union_groups ::
  "(string \<times> bool) list \<Rightarrow> string list \<Rightarrow> metadata \<Rightarrow> string list \<Rightarrow> error + string list" where
  "union_groups kwargs [] metadata requirements_list = Inr requirements_list"
| "union_groups kwargs (key # keys) metadata requirements_list =
    (if kwargs_get kwargs key
     then (case set_union requirements_list (get_requirements key metadata) of
             Inl e \<Rightarrow> Inl e
           | Inr requirements_list1 \<Rightarrow> union_groups kwargs keys metadata requirements_list1)
     else union_groups kwargs keys metadata requirements_list)"

text \<open>
  Modelled from the spec: \<^verbatim>\<open>str.split()\<close> is Python's built-in and is not under
  \<^verbatim>\<open>src/\<close>. The spec says a requirement string must "split on whitespace into exactly
  two tokens": the tokens are the maximal runs of characters that are not whitespace.
  Characters are bytes here, and the whitespace is that of ASCII (tab, line feed,
  vertical tab, form feed, carriage return, the four separators 0x1C to 0x1F and the
  space).
\<close>

definition whitespace :: string where
  "whitespace = [CHR 0x09, CHR 0x0A, CHR 0x0B, CHR 0x0C, CHR 0x0D,
                 CHR 0x1C, CHR 0x1D, CHR 0x1E, CHR 0x1F, CHR 0x20]"

definition is_space :: "char \<Rightarrow> bool" where
  "is_space c = (c \<in> set whitespace)"

fun split_words :: "string \<Rightarrow> string \<Rightarrow> string list" where
  "split_words word [] = (if word = [] then [] else [word])"
| "split_words word (c # cs) =
    (if is_space c then (if word = [] then split_words [] cs else word # split_words [] cs)
     else split_words (word @ [c]) cs)"

definition str_split :: "string \<Rightarrow> string list" where
  "str_split s = split_words [] s"

text \<open>
  Modelled from the spec: \<^verbatim>\<open>canonicalize_name\<close> is imported from the \<^verbatim>\<open>packaging\<close>
  library and is not under \<^verbatim>\<open>src/\<close>. The spec says names are "canonicalized (lowercase,
  separator-normalized) per standard package-name canonicalization rules": every run of
  the separators \<^verbatim>\<open>-\<close>, \<^verbatim>\<open>_\<close> and \<^verbatim>\<open>.\<close> becomes one \<^verbatim>\<open>-\<close>, and the ASCII capital
  letters become small letters. The flag of \<open>sub_separators\<close> says that the character
  before was a separator.
\<close>

definition is_separator :: "char \<Rightarrow> bool" where
  "is_separator c = (c = CHR ''-'' \<or> c = CHR ''_'' \<or> c = CHR ''.'')"

fun sub_separators :: "bool \<Rightarrow> string \<Rightarrow> string" where
  "sub_separators in_run [] = []"
| "sub_separators in_run (c # cs) =
    (if is_separator c
     then (if in_run then sub_separators True cs else CHR ''-'' # sub_separators True cs)
     else c # sub_separators False cs)"

definition lower_char :: "char \<Rightarrow> char" where
  "lower_char c =
    (case map_of (zip ''ABCDEFGHIJKLMNOPQRSTUVWXYZ'' ''abcdefghijklmnopqrstuvwxyz'') c of
       Some l \<Rightarrow> l
     | None \<Rightarrow> c)"

definition canonicalize_name :: "string \<Rightarrow> string" where
  "canonicalize_name s = map lower_char (sub_separators False s)"

text \<open>Lines 127--129, the body of the loop over the requirement strings.\<close>

definition requirement_of :: "string \<Rightarrow> error + requirement" where
  "requirement_of string =
    (case str_split string of
       [dep, ver] \<Rightarrow> Inr [(canonicalize_name dep, ver)]
     | _ \<Rightarrow> Inl ValueError_unpack)"

text \<open>Lines 125--130, the loop: the first string that does not unpack raises.\<close>

fun requirement_dicts :: "string list \<Rightarrow> error + requirement list" where
  "requirement_dicts [] = Inr []"
| "requirement_dicts (string # strings) =
    (case requirement_of string of
       Inl e \<Rightarrow> Inl e
     | Inr requirement \<Rightarrow>
        (case requirement_dicts strings of
           Inl e \<Rightarrow> Inl e
         | Inr reqs \<Rightarrow> Inr (requirement # reqs)))"

text \<open>Lines 98--132: what the function does with the parsed document.\<close>

definition requirements_of_metadata ::
  "metadata \<Rightarrow> (string \<times> bool) list \<Rightarrow> error + package_requirements" where
  "requirements_of_metadata metadata kwargs =
    (case union_groups kwargs requirement_keys metadata [] of
       Inl e \<Rightarrow> Inl e
     | Inr requirements_list \<Rightarrow>
        (case name metadata of
           None \<Rightarrow> Inl KeyError_name
         | Some package_name \<Rightarrow>
            (case requirement_dicts requirements_list of
               Inl e \<Rightarrow> Inl e
             | Inr reqs \<Rightarrow> Inr [(package_name, reqs)])))"

text \<open>
  Lines 93--96 and the rest. \<^verbatim>\<open>json.loads\<close> is the standard library's parser; the
  model takes it as the parameter \<open>json_loads\<close>.
\<close>

definition build_package_requirements ::
  "(string \<Rightarrow> error + metadata) \<Rightarrow> string \<Rightarrow> (string \<times> bool) list
     \<Rightarrow> error + package_requirements" where
  "build_package_requirements json_loads package_metadata kwargs =
    (if package_metadata = [] then Inl ValueError_no_metadata
     else
      (case json_loads package_metadata of
         Inl e \<Rightarrow> Inl e
       | Inr metadata \<Rightarrow> requirements_of_metadata metadata kwargs))"

section \<open>\<^verbatim>\<open>build_requirements_list\<close> (api.py, lines 135--207)\<close>

definition version_specifiers :: string where
  "version_specifiers = ''version_specifiers''"

text \<open>\<^verbatim>\<open>package.popitem()\<close>: removes the last item of the dict and returns it.\<close>

definition popitem :: "('k \<times> 'v) list \<Rightarrow> error + (('k \<times> 'v) \<times> ('k \<times> 'v) list)" where
  "popitem d = (if d = [] then Inl KeyError_popitem else Inr (last d, butlast d))"

text \<open>\<^verbatim>\<open>(dep_name, ver), = dep.items()\<close>: the dict must hold exactly one item.\<close>

fun single_item :: "requirement \<Rightarrow> error + (string \<times> string)" where
  "single_item [(dep_name, ver)] = Inr (dep_name, ver)"
| "single_item _ = Inl ValueError_unpack"

text \<open>Lines 183--197: the specifier is recorded under the package's name.\<close>

definition record_specifier ::
  "bool \<Rightarrow> string \<Rightarrow> string \<Rightarrow> string \<Rightarrow> requirements \<Rightarrow> error + requirements" where
  "record_specifier raise_on_confict package_name dep_name ver requirements_list =
    (case map_of requirements_list dep_name of
       None \<Rightarrow> Inr (AList.update dep_name [(package_name, [ver])] requirements_list)
     | Some entry \<Rightarrow>
        (case map_of entry package_name of
           None \<Rightarrow>
             Inr (AList.update dep_name (AList.update package_name [ver] entry) requirements_list)
         | Some vers \<Rightarrow>
             if \<not> raise_on_confict
             then Inr (AList.update dep_name
                        (AList.update package_name (vers @ [ver]) entry) requirements_list)
             else Inl ValueError_multiple))"

text \<open>Lines 200--205: the specifier joins the entry's \<^verbatim>\<open>'version_specifiers'\<close> list.\<close>

definition add_version_specifier :: "string \<Rightarrow> string \<Rightarrow> requirements \<Rightarrow> error + requirements" where
  "add_version_specifier dep_name ver requirements_list =
    (case map_of requirements_list dep_name of
       None \<Rightarrow> Inl KeyError_lookup
     | Some entry \<Rightarrow>
        (let entry1 = (if map_of entry version_specifiers = None
                       then AList.update version_specifiers [ver] entry else entry)
         in case map_of entry1 version_specifiers of
              None \<Rightarrow> Inl KeyError_lookup
            | Some vs \<Rightarrow>
                Inr (AList.update dep_name
                      (if ver \<notin> set vs
                       then AList.update version_specifiers (vs @ [ver]) entry1
                       else entry1)
                      requirements_list)))"

text \<open>The inner loop \<^verbatim>\<open>for dep in deplist\<close>.\<close>

fun deplist_loop ::
  "bool \<Rightarrow> string \<Rightarrow> requirement list \<Rightarrow> requirements \<Rightarrow> error + requirements" where
  "deplist_loop raise_on_confict package_name [] requirements_list = Inr requirements_list"
| "deplist_loop raise_on_confict package_name (dep # deplist) requirements_list =
    (case single_item dep of
       Inl e \<Rightarrow> Inl e
     | Inr (dep_name, ver) \<Rightarrow>
        (case record_specifier raise_on_confict package_name dep_name ver requirements_list of
           Inl e \<Rightarrow> Inl e
         | Inr requirements_list1 \<Rightarrow>
            (case add_version_specifier dep_name ver requirements_list1 of
               Inl e \<Rightarrow> Inl e
             | Inr requirements_list2 \<Rightarrow>
                 deplist_loop raise_on_confict package_name deplist requirements_list2)))"

text \<open>
  The outer loop \<^verbatim>\<open>for package in package_list\<close>. \<^verbatim>\<open>popitem\<close> changes the
  caller's dict, so the loop returns the package list as the call leaves it, beside the
  outcome. An exception leaves the dicts not yet reached as they were.
\<close>

fun package_loop ::
  "bool \<Rightarrow> package_requirements list \<Rightarrow> requirements \<Rightarrow>
     package_requirements list \<times> (error + requirements)" where
  "package_loop raise_on_confict [] requirements_list = ([], Inr requirements_list)"
| "package_loop raise_on_confict (package # package_list) requirements_list =
    (case popitem package of
       Inl e \<Rightarrow> (package # package_list, Inl e)
     | Inr ((package_name, deplist), package1) \<Rightarrow>
        (case deplist_loop raise_on_confict package_name deplist requirements_list of
           Inl e \<Rightarrow> (package1 # package_list, Inl e)
         | Inr requirements_list1 \<Rightarrow>
            (case package_loop raise_on_confict package_list requirements_list1 of
               (package_list1, outcome) \<Rightarrow> (package1 # package_list1, outcome))))"

definition build_requirements_list ::
  "package_requirements list \<Rightarrow> bool \<Rightarrow> package_requirements list \<times> (error + requirements)" where
  "build_requirements_list package_list raise_on_confict =
     package_loop raise_on_confict package_list []"

text \<open>What the call returns (or raises), and the caller's list after the call.\<close>

definition aggregate :: "package_requirements list \<Rightarrow> bool \<Rightarrow> error + requirements" where
  "aggregate package_list raise_on_confict =
     snd (build_requirements_list package_list raise_on_confict)"

definition package_list_after :: "package_requirements list \<Rightarrow> bool \<Rightarrow> package_requirements list" where
  "package_list_after package_list raise_on_confict =
     fst (build_requirements_list package_list raise_on_confict)"

text \<open>
  \<^verbatim>\<open>dependencies.py\<close>, line 143:
  \<^verbatim>\<open>conflict = len(od[package]['version_specifiers']) > 1\<close>.
\<close>

definition conflict :: "requirement_entry \<Rightarrow> error + bool" where
  "conflict entry =
    (case map_of entry version_specifiers of
       None \<Rightarrow> Inl KeyError_lookup
     | Some vs \<Rightarrow> Inr (length vs > 1))"

text \<open>
  The value the extractor returns for one package: a dict with the package's name as
  its only key, over a list of one-item dicts.
\<close>

definition package_of :: "string \<times> (string \<times> string) list \<Rightarrow> package_requirements" where
  "package_of p = [(fst p, map (\<lambda>r. [r]) (snd p))]"

section \<open>The vocabulary of the statements\<close>

subsection \<open>The aggregator's input as a sequence of requirements\<close>

text \<open>
  The input of the aggregator is \<open>map package_of ps\<close> for a list \<open>ps\<close> of packages, each
  a name with its (dependency, specifier) pairs. The two loops visit the triples
  (package, dependency, specifier) in this order:
\<close>

definition triples ::
  "(string \<times> (string \<times> string) list) list \<Rightarrow> (string \<times> string \<times> string) list" where
  "triples ps = concat (map (\<lambda>p. map (\<lambda>r. (fst p, fst r, snd r)) (snd p)) ps)"

text \<open>The (package, dependency) pairs in the order they are recorded.\<close>

definition recorded_pairs ::
  "(string \<times> (string \<times> string) list) list \<Rightarrow> (string \<times> string) list" where
  "recorded_pairs ps = map (\<lambda>t. (fst t, fst (snd t))) (triples ps)"

text \<open>All specifiers given for a dependency, and those given by one package, in order.\<close>

definition specifiers_for :: "(string \<times> string \<times> string) list \<Rightarrow> string \<Rightarrow> string list" where
  "specifiers_for ts d = map (\<lambda>t. snd (snd t)) (filter (\<lambda>t. fst (snd t) = d) ts)"

definition specifiers_of ::
  "(string \<times> string \<times> string) list \<Rightarrow> string \<Rightarrow> string \<Rightarrow> string list" where
  "specifiers_of ts d n =
     map (\<lambda>t. snd (snd t)) (filter (\<lambda>t. fst (snd t) = d \<and> fst t = n) ts)"

text \<open>The names of the packages that mention a dependency, each once.\<close>

definition packages_mentioning ::
  "(string \<times> (string \<times> string) list) list \<Rightarrow> string \<Rightarrow> string list" where
  "packages_mentioning ps d = remdups (map fst (filter (\<lambda>p. d \<in> fst ` set (snd p)) ps))"

text \<open>The elements of a list in the order of their first occurrence.\<close>

definition first_seen :: "'a list \<Rightarrow> 'a list" where
  "first_seen xs = fold set_add xs []"

subsection \<open>One pass of the loop body, and the loops as one fold\<close>

definition requirement_step ::
  "bool \<Rightarrow> string \<times> string \<times> string \<Rightarrow> requirements \<Rightarrow> error + requirements" where
  "requirement_step r t rl =
    (case record_specifier r (fst t) (fst (snd t)) (snd (snd t)) rl of
       Inl e \<Rightarrow> Inl e
     | Inr rl1 \<Rightarrow> add_version_specifier (fst (snd t)) (snd (snd t)) rl1)"

fun run_triples ::
  "bool \<Rightarrow> (string \<times> string \<times> string) list \<Rightarrow> requirements \<Rightarrow> error + requirements" where
  "run_triples r [] rl = Inr rl"
| "run_triples r (t # ts) rl =
    (case requirement_step r t rl of Inl e \<Rightarrow> Inl e | Inr rl1 \<Rightarrow> run_triples r ts rl1)"

text \<open>The loop body seen from the entry of the dependency alone.\<close>

definition vs_stage :: "string \<Rightarrow> requirement_entry \<Rightarrow> requirement_entry" where
  "vs_stage ver entry =
    (case map_of entry version_specifiers of
       None \<Rightarrow> AList.update version_specifiers [ver] entry
     | Some vs \<Rightarrow> if ver \<in> set vs then entry
                 else AList.update version_specifiers (vs @ [ver]) entry)"

definition entry_step ::
  "bool \<Rightarrow> string \<Rightarrow> string \<Rightarrow> requirement_entry option \<Rightarrow> error + requirement_entry" where
  "entry_step r n v eo =
    (case eo of
       None \<Rightarrow> Inr (vs_stage v [(n, [v])])
     | Some e \<Rightarrow>
        (case map_of e n of
           None \<Rightarrow> Inr (vs_stage v (AList.update n [v] e))
         | Some vers \<Rightarrow>
             if r then Inl ValueError_multiple
             else Inr (vs_stage v (AList.update n (vers @ [v]) e))))"

subsection \<open>Invariants of the accumulator\<close>

text \<open>
  When no package bears the reserved name, the entry of a dependency holds, after the
  triples \<open>ts\<close>, the specifiers of each package under the package's name and the
  distinct specifiers under \<^verbatim>\<open>'version_specifiers'\<close>.
\<close>

definition entry_ok ::
  "(string \<times> string \<times> string) list \<Rightarrow> string \<Rightarrow> requirement_entry \<Rightarrow> bool" where
  "entry_ok ts d e \<longleftrightarrow>
     distinct (map fst e) \<and>
     (\<forall>k. map_of e k =
        (if k = version_specifiers then Some (first_seen (specifiers_for ts d))
         else if specifiers_of ts d k = [] then None
         else Some (specifiers_of ts d k)))"

definition state_ok :: "(string \<times> string \<times> string) list \<Rightarrow> requirements \<Rightarrow> bool" where
  "state_ok ts rl \<longleftrightarrow>
     distinct (map fst rl) \<and>
     (\<forall>d. (map_of rl d = None \<longleftrightarrow> specifiers_for ts d = []) \<and>
          (\<forall>e. map_of rl d = Some e \<longrightarrow> entry_ok ts d e))"

text \<open>
  For every input, the elements of the \<^verbatim>\<open>'version_specifiers'\<close> list of a dependency
  are the specifiers given for it.
\<close>

definition vs_ok :: "(string \<times> string \<times> string) list \<Rightarrow> requirements \<Rightarrow> bool" where
  "vs_ok ts rl \<longleftrightarrow>
     distinct (map fst rl) \<and>
     (\<forall>d. (map_of rl d = None \<longleftrightarrow> specifiers_for ts d = []) \<and>
          (\<forall>e. map_of rl d = Some e \<longrightarrow>
             (\<exists>vs. map_of e version_specifiers = Some vs \<and> set vs = set (specifiers_for ts d))))"

subsection \<open>The strings the extractor selects\<close>

text \<open>
  The requirement strings of one key (none when the key is switched off), and those of
  all five keys, in the order of the five blocks and with their repetitions.
\<close>

definition group_strings :: "(string \<times> bool) list \<Rightarrow> metadata \<Rightarrow> string \<Rightarrow> string list" where
  "group_strings kwargs metadata key =
    (if kwargs_get kwargs key
     then (case get_requirements key metadata of None \<Rightarrow> [] | Some xs \<Rightarrow> xs)
     else [])"

definition selected :: "(string \<times> bool) list \<Rightarrow> metadata \<Rightarrow> string list" where
  "selected kwargs metadata = concat (map (group_strings kwargs metadata) requirement_keys)"

text \<open>The selection fails when \<^verbatim>\<open>_get_requirements\<close> returns \<^verbatim>\<open>None\<close> for a key in use.\<close>

definition selection_fails :: "(string \<times> bool) list \<Rightarrow> metadata \<Rightarrow> string list \<Rightarrow> bool" where
  "selection_fails kwargs metadata keys =
    list_ex (\<lambda>key. kwargs_get kwargs key \<and> get_requirements key metadata = None) keys"

text \<open>Two characters that differ in letter case or in the separator only.\<close>

definition same_spelling :: "char \<Rightarrow> char \<Rightarrow> bool" where
  "same_spelling a b \<longleftrightarrow> lower_char a = lower_char b \<or> (is_separator a \<and> is_separator b)"

section \<open>The aggregator as a fold over the requirements\<close>

lemma requirement_step_entry:
  "requirement_step r (n, d, v) rl =
    (case entry_step r n v (map_of rl d) of
       Inl e \<Rightarrow> Inl e
     | Inr en \<Rightarrow> Inr (AList.update d en rl))"
  by (auto simp: requirement_step_def record_specifier_def add_version_specifier_def
      entry_step_def vs_stage_def update_conv' Let_def
      split: option.splits sum.splits if_splits)

lemma deplist_loop_run:
  "deplist_loop r n (map (\<lambda>x. [x]) ds) rl = run_triples r (map (\<lambda>x. (n, fst x, snd x)) ds) rl"
proof (induction ds arbitrary: rl)
  case Nil
  show ?case by simp
next
  case (Cons x ds)
  obtain d v where x: "x = (d, v)" by (cases x)
  show ?case
    by (simp add: x requirement_step_def Cons.IH split: sum.splits)
qed

lemma run_triples_append:
  "run_triples r (ts @ us) rl =
    (case run_triples r ts rl of Inl e \<Rightarrow> Inl e | Inr rl1 \<Rightarrow> run_triples r us rl1)"
  by (induction ts arbitrary: rl) (auto split: sum.splits)

lemma package_loop_package_of:
  "snd (package_loop r (package_of p # pl) rl) =
    (case deplist_loop r (fst p) (map (\<lambda>x. [x]) (snd p)) rl of
       Inl e \<Rightarrow> Inl e
     | Inr rl1 \<Rightarrow> snd (package_loop r pl rl1))"
  by (simp add: package_of_def popitem_def split: sum.splits prod.splits)

lemma package_loop_run:
  "snd (package_loop r (map package_of ps) rl) = run_triples r (triples ps) rl"
proof (induction ps arbitrary: rl)
  case Nil
  show ?case by (simp add: triples_def)
next
  case (Cons p ps)
  have t: "triples (p # ps) = map (\<lambda>x. (fst p, fst x, snd x)) (snd p) @ triples ps"
    by (simp add: triples_def)
  show ?case
    unfolding list.map package_loop_package_of t run_triples_append deplist_loop_run
    by (simp add: Cons.IH split: sum.splits)
qed

lemma aggregate_run: "aggregate (map package_of ps) r = run_triples r (triples ps) []"
  by (simp add: aggregate_def build_requirements_list_def package_loop_run)

lemma set_triples:
  "set (triples ps) = {(n, d, v). \<exists>ds. (n, ds) \<in> set ps \<and> (d, v) \<in> set ds}"
  by (auto simp: triples_def)

lemma mem_triples:
  "(n, d, v) \<in> set (triples ps) \<longleftrightarrow> (\<exists>ds. (n, ds) \<in> set ps \<and> (d, v) \<in> set ds)"
  by (simp add: set_triples)

lemma triples_permutation: "mset ps = mset qs \<Longrightarrow> set (triples ps) = set (triples qs)"
  using mset_eq_setD[of ps qs] by (simp add: set_triples)

lemma mem_packages_mentioning:
  "n \<in> set (packages_mentioning ps d) \<longleftrightarrow> (\<exists>ds v. (n, ds) \<in> set ps \<and> (d, v) \<in> set ds)"
proof
  assume "n \<in> set (packages_mentioning ps d)"
  then obtain p where p: "p \<in> set ps" "d \<in> fst ` set (snd p)" "n = fst p"
    by (auto simp: packages_mentioning_def)
  then obtain r where r: "r \<in> set (snd p)" "d = fst r" by blast
  have "(n, snd p) \<in> set ps" using p by simp
  moreover have "(d, snd r) \<in> set (snd p)" using r by simp
  ultimately show "\<exists>ds v. (n, ds) \<in> set ps \<and> (d, v) \<in> set ds" by blast
next
  assume "\<exists>ds v. (n, ds) \<in> set ps \<and> (d, v) \<in> set ds"
  then obtain ds v where a: "(n, ds) \<in> set ps" "(d, v) \<in> set ds" by blast
  have "d \<in> fst ` set ds" using a(2) by (rule image_eqI[rotated]) simp
  then show "n \<in> set (packages_mentioning ps d)"
    using a(1) unfolding packages_mentioning_def set_remdups set_map set_filter
    by (intro image_eqI[where x = "(n, ds)"]) simp_all
qed

lemma set_packages_mentioning:
  "set (packages_mentioning ps d) = fst ` {t \<in> set (triples ps). fst (snd t) = d}"
proof (intro set_eqI iffI)
  fix n assume "n \<in> set (packages_mentioning ps d)"
  then obtain ds v where "(n, ds) \<in> set ps" "(d, v) \<in> set ds"
    by (auto simp: mem_packages_mentioning)
  then have "(n, d, v) \<in> {t \<in> set (triples ps). fst (snd t) = d}"
    by (auto simp: mem_triples)
  then show "n \<in> fst ` {t \<in> set (triples ps). fst (snd t) = d}"
    by (rule image_eqI[rotated]) simp
next
  fix n assume "n \<in> fst ` {t \<in> set (triples ps). fst (snd t) = d}"
  then obtain t where t: "t \<in> set (triples ps)" "fst (snd t) = d" "n = fst t" by blast
  obtain n' d' v where [simp]: "t = (n', d', v)" by (cases t)
  from t show "n \<in> set (packages_mentioning ps d)"
    by (auto simp: mem_packages_mentioning mem_triples)
qed

lemma triples_no_reserved:
  assumes "version_specifiers \<notin> fst ` set ps"
  shows "\<forall>t \<in> set (triples ps). fst t \<noteq> version_specifiers"
proof
  fix t assume t: "t \<in> set (triples ps)"
  obtain n d v where [simp]: "t = (n, d, v)" by (cases t)
  from t obtain ds where "(n, ds) \<in> set ps" by (auto simp: mem_triples)
  then have "n \<in> fst ` set ps" by (rule image_eqI[rotated]) simp
  with assms have "n \<noteq> version_specifiers" by blast
  then show "fst t \<noteq> version_specifiers" by simp
qed

subsection \<open>First occurrences\<close>

lemma first_seen_snoc:
  "first_seen (xs @ [x]) =
     (if x \<in> set (first_seen xs) then first_seen xs else first_seen xs @ [x])"
  by (simp add: first_seen_def set_add_def)

lemma first_seen_Nil: "first_seen [] = []"
  by (simp add: first_seen_def set_add_def)

lemma set_first_seen: "set (first_seen xs) = set xs"
  by (induction xs rule: rev_induct) (auto simp: first_seen_snoc first_seen_Nil)

lemma distinct_first_seen: "distinct (first_seen xs)"
  by (induction xs rule: rev_induct) (auto simp: first_seen_snoc first_seen_Nil)

lemma length_first_seen: "length (first_seen xs) = card (set xs)"
  using distinct_card[OF distinct_first_seen, of xs] by (simp add: set_first_seen)

subsection \<open>The invariant when no package bears the reserved name\<close>

lemma map_of_vs_stage:
  "map_of (vs_stage v e) =
     (map_of e)(version_specifiers \<mapsto>
        (case map_of e version_specifiers of
           None \<Rightarrow> [v]
         | Some vs \<Rightarrow> if v \<in> set vs then vs else vs @ [v]))"
  by (auto simp: vs_stage_def update_conv' fun_eq_iff split: option.splits)

lemma distinct_vs_stage: "distinct (map fst e) \<Longrightarrow> distinct (map fst (vs_stage v e))"
  by (auto simp: vs_stage_def distinct_update split: option.splits)

lemma specifiers_for_snoc:
  "specifiers_for (ts @ [(n, d, v)]) d' =
     (if d' = d then specifiers_for ts d' @ [v] else specifiers_for ts d')"
  by (simp add: specifiers_for_def)

lemma specifiers_of_snoc:
  "specifiers_of (ts @ [(n, d, v)]) d' k =
     (if d' = d \<and> k = n then specifiers_of ts d' k @ [v] else specifiers_of ts d' k)"
  by (simp add: specifiers_of_def)

lemma specifiers_of_empty_iff:
  "specifiers_of ts d n = [] \<longleftrightarrow> (n, d) \<notin> (\<lambda>t. (fst t, fst (snd t))) ` set ts"
  by (auto simp: specifiers_of_def filter_empty_conv image_iff)

lemma specifiers_for_empty_iff:
  "specifiers_for ts d = [] \<longleftrightarrow> d \<notin> (\<lambda>t. fst (snd t)) ` set ts"
  by (auto simp: specifiers_for_def filter_empty_conv image_iff)

lemma set_specifiers_for:
  "set (specifiers_for ts d) = {v. \<exists>n. (n, d, v) \<in> set ts}"
  by (auto simp: specifiers_for_def image_iff)

lemma entry_step_ok_new:
  assumes "n \<noteq> version_specifiers" and "specifiers_for ts d = []"
  shows "\<exists>en. entry_step r n v None = Inr en \<and> entry_ok (ts @ [(n, d, v)]) d en"
proof -
  have "specifiers_of ts d k = []" for k
    using assms(2) by (auto simp: specifiers_for_def specifiers_of_def filter_empty_conv)
  then show ?thesis
    using assms
    by (auto simp: entry_step_def entry_ok_def map_of_vs_stage distinct_vs_stage
        specifiers_for_snoc specifiers_of_snoc first_seen_def set_add_def)
qed

lemma entry_step_ok_old:
  assumes "n \<noteq> version_specifiers" and "entry_ok ts d e"
  shows "\<exists>en. entry_step False n v (Some e) = Inr en \<and> entry_ok (ts @ [(n, d, v)]) d en"
  using assms
  by (auto simp: entry_step_def entry_ok_def map_of_vs_stage distinct_vs_stage distinct_update
      update_conv' specifiers_for_snoc specifiers_of_snoc first_seen_snoc
      split: option.splits)

lemma entry_ok_other:
  "d' \<noteq> d \<Longrightarrow> entry_ok (ts @ [(n, d, v)]) d' e = entry_ok ts d' e"
  by (simp add: entry_ok_def specifiers_for_snoc specifiers_of_snoc)

lemma state_ok_update:
  assumes "state_ok ts rl" and "entry_ok (ts @ [(n, d, v)]) d en"
  shows "state_ok (ts @ [(n, d, v)]) (AList.update d en rl)"
  unfolding state_ok_def
proof (intro conjI allI impI)
  show "distinct (map fst (AList.update d en rl))"
    using assms(1) by (simp add: state_ok_def distinct_update)
next
  fix d'
  show "map_of (AList.update d en rl) d' = None \<longleftrightarrow> specifiers_for (ts @ [(n, d, v)]) d' = []"
    using assms(1) by (simp add: state_ok_def update_conv' specifiers_for_snoc)
next
  fix d' e
  assume "map_of (AList.update d en rl) d' = Some e"
  then show "entry_ok (ts @ [(n, d, v)]) d' e"
    using assms by (cases "d' = d") (simp_all add: state_ok_def update_conv' entry_ok_other)
qed

lemma requirement_step_ok:
  assumes "n \<noteq> version_specifiers" and "state_ok ts rl"
  shows "\<exists>rl1. requirement_step False (n, d, v) rl = Inr rl1 \<and> state_ok (ts @ [(n, d, v)]) rl1"
proof (cases "map_of rl d")
  case None
  then have "specifiers_for ts d = []"
    using assms(2) by (simp add: state_ok_def)
  from entry_step_ok_new[OF assms(1) this, of False v]
  obtain en where en: "entry_step False n v None = Inr en" "entry_ok (ts @ [(n, d, v)]) d en"
    by blast
  show ?thesis
    using state_ok_update[OF assms(2) en(2)] by (simp add: requirement_step_entry None en(1))
next
  case (Some e)
  then have "entry_ok ts d e"
    using assms(2) by (simp add: state_ok_def)
  from entry_step_ok_old[OF assms(1) this, of v]
  obtain en where en: "entry_step False n v (Some e) = Inr en" "entry_ok (ts @ [(n, d, v)]) d en"
    by blast
  show ?thesis
    using state_ok_update[OF assms(2) en(2)] by (simp add: requirement_step_entry Some en(1))
qed

lemma run_triples_ok:
  assumes "\<forall>t \<in> set ts. fst t \<noteq> version_specifiers"
  shows "\<exists>rl. run_triples False ts [] = Inr rl \<and> state_ok ts rl"
  using assms
proof (induction ts rule: rev_induct)
  case Nil
  show ?case by (simp add: state_ok_def specifiers_for_def)
next
  case (snoc t ts)
  then obtain rl where rl: "run_triples False ts [] = Inr rl" "state_ok ts rl"
    by auto
  obtain n d v where t: "t = (n, d, v)" by (cases t)
  have "n \<noteq> version_specifiers" using snoc.prems t by simp
  from requirement_step_ok[OF this rl(2), of d v]
  show ?case
    by (auto simp: run_triples_append rl(1) t split: sum.splits)
qed

lemma state_ok_Some: "state_ok ts rl \<Longrightarrow> map_of rl d = Some e \<Longrightarrow> entry_ok ts d e"
  unfolding state_ok_def by blast

lemma state_ok_distinct: "state_ok ts rl \<Longrightarrow> distinct (map fst rl)"
  unfolding state_ok_def by blast

lemma entry_ok_lookup:
  "entry_ok ts d e \<Longrightarrow> n \<noteq> version_specifiers \<Longrightarrow>
     map_of e n = (if specifiers_of ts d n = [] then None else Some (specifiers_of ts d n))"
  unfolding entry_ok_def by simp

lemma entry_ok_version_specifiers:
  "entry_ok ts d e \<Longrightarrow> map_of e version_specifiers = Some (first_seen (specifiers_for ts d))"
  unfolding entry_ok_def by simp

lemma entry_ok_distinct: "entry_ok ts d e \<Longrightarrow> distinct (map fst e)"
  unfolding entry_ok_def by blast

lemma entry_ok_keys:
  assumes "entry_ok ts d e"
  shows "set (map fst e) =
     insert version_specifiers (fst ` {t \<in> set ts. fst (snd t) = d})"
proof -
  have "set (map fst e) = dom (map_of e)"
    by (simp add: dom_map_of_conv_image_fst)
  also have "\<dots> = {k. k = version_specifiers \<or> specifiers_of ts d k \<noteq> []}"
    using assms by (auto simp: entry_ok_def dom_def)
  also have "\<dots> = insert version_specifiers (fst ` {t \<in> set ts. fst (snd t) = d})"
    by (auto simp: specifiers_of_empty_iff image_iff)
  finally show ?thesis .
qed

lemma mset_keys_of_entry:
  assumes "version_specifiers \<notin> fst ` set ps" and "entry_ok (triples ps) d e"
  shows "mset (map fst e) = mset (version_specifiers # packages_mentioning ps d)"
proof -
  have no: "version_specifiers \<notin> set (packages_mentioning ps d)"
  proof
    assume "version_specifiers \<in> set (packages_mentioning ps d)"
    then obtain ds where "(version_specifiers, ds) \<in> set ps"
      by (auto simp: mem_packages_mentioning)
    then have "version_specifiers \<in> fst ` set ps" by (rule image_eqI[rotated]) simp
    with assms(1) show False by blast
  qed
  have "distinct (version_specifiers # packages_mentioning ps d)"
    using no by (simp add: packages_mentioning_def)
  moreover have "set (map fst e) = set (version_specifiers # packages_mentioning ps d)"
    using entry_ok_keys[OF assms(2)] by (simp add: set_packages_mentioning)
  ultimately show ?thesis
    using entry_ok_distinct[OF assms(2)] set_eq_iff_mset_eq_distinct by blast
qed

lemma aggregate_state_ok:
  assumes "version_specifiers \<notin> fst ` set ps"
  shows "\<exists>rl. aggregate (map package_of ps) False = Inr rl \<and> state_ok (triples ps) rl"
  using run_triples_ok[OF triples_no_reserved[OF assms]] by (simp add: aggregate_run)

subsection \<open>Raising on a second specifier\<close>

lemma recorded_iff:
  assumes "state_ok ts rl" and "n \<noteq> version_specifiers"
  shows "(\<exists>e vers. map_of rl d = Some e \<and> map_of e n = Some vers) \<longleftrightarrow>
         (n, d) \<in> (\<lambda>t. (fst t, fst (snd t))) ` set ts"
proof
  assume "\<exists>e vers. map_of rl d = Some e \<and> map_of e n = Some vers"
  then obtain e vers where e: "map_of rl d = Some e" "map_of e n = Some vers" by blast
  from assms(1) e(1) have "entry_ok ts d e" by (simp add: state_ok_def)
  with e(2) assms(2) have "specifiers_of ts d n \<noteq> []"
    by (auto simp: entry_ok_def split: if_splits)
  then show "(n, d) \<in> (\<lambda>t. (fst t, fst (snd t))) ` set ts"
    by (simp add: specifiers_of_empty_iff)
next
  assume a: "(n, d) \<in> (\<lambda>t. (fst t, fst (snd t))) ` set ts"
  then have 1: "specifiers_of ts d n \<noteq> []" by (simp add: specifiers_of_empty_iff)
  from a have "specifiers_for ts d \<noteq> []" by (auto simp: specifiers_for_empty_iff image_iff)
  with assms(1) obtain e where e: "map_of rl d = Some e" by (auto simp: state_ok_def)
  with assms(1) have "entry_ok ts d e" by (simp add: state_ok_def)
  with 1 assms(2) have "map_of e n = Some (specifiers_of ts d n)" by (simp add: entry_ok_def)
  with e show "\<exists>e vers. map_of rl d = Some e \<and> map_of e n = Some vers" by blast
qed

lemma entry_step_True:
  "entry_step True n v eo =
     (if (\<exists>e vers. eo = Some e \<and> map_of e n = Some vers) then Inl ValueError_multiple
      else entry_step False n v eo)"
  by (auto simp: entry_step_def split: option.splits)

lemma requirement_step_True:
  assumes "state_ok ts rl" and "n \<noteq> version_specifiers"
  shows "requirement_step True (n, d, v) rl =
     (if (n, d) \<in> (\<lambda>t. (fst t, fst (snd t))) ` set ts then Inl ValueError_multiple
      else requirement_step False (n, d, v) rl)"
  using recorded_iff[OF assms, of d]
  by (simp add: requirement_step_entry entry_step_True)

lemma run_triples_True:
  assumes "\<forall>t \<in> set ts. fst t \<noteq> version_specifiers"
  shows "run_triples True ts [] =
     (if distinct (map (\<lambda>t. (fst t, fst (snd t))) ts) then run_triples False ts []
      else Inl ValueError_multiple)"
  using assms
proof (induction ts rule: rev_induct)
  case Nil
  show ?case by simp
next
  case (snoc t ts)
  have no: "\<forall>t \<in> set ts. fst t \<noteq> version_specifiers" using snoc.prems by simp
  obtain rl where rl: "run_triples False ts [] = Inr rl" "state_ok ts rl"
    using run_triples_ok[OF no] by blast
  obtain n d v where t: "t = (n, d, v)" by (cases t)
  have n: "n \<noteq> version_specifiers" using snoc.prems t by simp
  show ?case
  proof (cases "distinct (map (\<lambda>t. (fst t, fst (snd t))) ts)")
    case False
    then show ?thesis using snoc.IH[OF no] by (simp add: run_triples_append)
  next
    case True
    then have "run_triples True ts [] = Inr rl" using snoc.IH[OF no] rl(1) by simp
    then show ?thesis
      using True requirement_step_True[OF rl(2) n, of d v]
      by (simp add: run_triples_append rl(1) t split: sum.splits)
  qed
qed

lemma aggregate_True:
  assumes "version_specifiers \<notin> fst ` set ps"
  shows "aggregate (map package_of ps) True =
     (if distinct (recorded_pairs ps) then aggregate (map package_of ps) False
      else Inl ValueError_multiple)"
  using run_triples_True[OF triples_no_reserved[OF assms]]
  by (simp add: aggregate_run recorded_pairs_def)

lemma aggregate_True_success:
  assumes "version_specifiers \<notin> fst ` set ps" and "aggregate (map package_of ps) True = Inr rl"
  shows "aggregate (map package_of ps) False = Inr rl"
  using assms(2) by (simp add: aggregate_True[OF assms(1)] split: if_splits)

subsection \<open>The invariant of the version specifiers for every input\<close>

lemma requirement_step_False_total: "\<exists>rl1. requirement_step False t rl = Inr rl1"
  by (cases t) (auto simp: requirement_step_entry entry_step_def split: option.splits)

lemma run_triples_False_total: "\<exists>rl1. run_triples False ts rl = Inr rl1"
proof (induction ts arbitrary: rl)
  case Nil
  show ?case by simp
next
  case (Cons t ts)
  obtain rl1 where "requirement_step False t rl = Inr rl1"
    using requirement_step_False_total by blast
  then show ?case using Cons.IH[of rl1] by simp
qed

lemma entry_step_vs_new:
  "\<exists>en vs. entry_step False n v None = Inr en \<and> map_of en version_specifiers = Some vs
     \<and> set vs = {v}"
  by (auto simp: entry_step_def map_of_vs_stage)

lemma entry_step_vs_old:
  assumes "map_of e version_specifiers = Some vs"
  shows "\<exists>en vs1. entry_step False n v (Some e) = Inr en
     \<and> map_of en version_specifiers = Some vs1 \<and> set vs1 = insert v (set vs)"
  using assms
  by (auto simp: entry_step_def map_of_vs_stage update_conv' split: option.splits)

lemma vs_ok_None: "vs_ok ts rl \<Longrightarrow> map_of rl d = None \<Longrightarrow> specifiers_for ts d = []"
  unfolding vs_ok_def by blast

lemma vs_ok_Some:
  "vs_ok ts rl \<Longrightarrow> map_of rl d = Some e \<Longrightarrow>
     \<exists>vs. map_of e version_specifiers = Some vs \<and> set vs = set (specifiers_for ts d)"
  unfolding vs_ok_def by blast

lemma vs_ok_distinct: "vs_ok ts rl \<Longrightarrow> distinct (map fst rl)"
  unfolding vs_ok_def by blast

lemma vs_ok_None_iff: "vs_ok ts rl \<Longrightarrow> map_of rl d = None \<longleftrightarrow> specifiers_for ts d = []"
  unfolding vs_ok_def by blast

lemma requirement_step_vs_ok:
  assumes "vs_ok ts rl"
  shows "\<exists>rl1. requirement_step False (n, d, v) rl = Inr rl1 \<and> vs_ok (ts @ [(n, d, v)]) rl1"
proof -
  have "\<exists>en vs1. entry_step False n v (map_of rl d) = Inr en
       \<and> map_of en version_specifiers = Some vs1
       \<and> set vs1 = insert v (set (specifiers_for ts d))"
  proof (cases "map_of rl d")
    case None
    then have "specifiers_for ts d = []" using assms by (rule vs_ok_None[rotated])
    then show ?thesis using entry_step_vs_new[of n v] by (simp add: None)
  next
    case (Some e)
    from vs_ok_Some[OF assms Some]
    obtain vs where vs: "map_of e version_specifiers = Some vs"
        "set vs = set (specifiers_for ts d)"
      by blast
    show ?thesis using entry_step_vs_old[OF vs(1), of n v] by (simp add: Some vs(2))
  qed
  then obtain en vs1 where en: "entry_step False n v (map_of rl d) = Inr en"
      "map_of en version_specifiers = Some vs1"
      "set vs1 = insert v (set (specifiers_for ts d))"
    by blast
  have "vs_ok (ts @ [(n, d, v)]) (AList.update d en rl)"
    unfolding vs_ok_def
  proof (intro conjI allI impI)
    show "distinct (map fst (AList.update d en rl))"
      using vs_ok_distinct[OF assms] by (rule distinct_update)
  next
    fix d'
    show "map_of (AList.update d en rl) d' = None \<longleftrightarrow>
          specifiers_for (ts @ [(n, d, v)]) d' = []"
      using vs_ok_None_iff[OF assms, of d'] by (simp add: update_conv' specifiers_for_snoc)
  next
    fix d' e
    assume a: "map_of (AList.update d en rl) d' = Some e"
    show "\<exists>vs. map_of e version_specifiers = Some vs
        \<and> set vs = set (specifiers_for (ts @ [(n, d, v)]) d')"
    proof (cases "d' = d")
      case True
      then have "e = en" using a by (simp add: update_conv')
      then show ?thesis using en(2,3) True by (simp add: specifiers_for_snoc)
    next
      case False
      then have "map_of rl d' = Some e" using a by (simp add: update_conv')
      from vs_ok_Some[OF assms this] show ?thesis using False
        by (simp add: specifiers_for_snoc)
    qed
  qed
  then show ?thesis by (simp add: requirement_step_entry en(1))
qed

lemma run_triples_vs_ok: "\<exists>rl. run_triples False ts [] = Inr rl \<and> vs_ok ts rl"
proof (induction ts rule: rev_induct)
  case Nil
  show ?case by (simp add: vs_ok_def specifiers_for_def)
next
  case (snoc t ts)
  then obtain rl where rl: "run_triples False ts [] = Inr rl" "vs_ok ts rl"
    by auto
  obtain n d v where t: "t = (n, d, v)" by (cases t)
  from requirement_step_vs_ok[OF rl(2), of n d v]
  show ?case
    by (auto simp: run_triples_append rl(1) t split: sum.splits)
qed

lemma version_specifiers_set:
  "\<exists>rl. aggregate (map package_of ps) False = Inr rl \<and>
     (\<forall>d entry. (d, entry) \<in> set rl \<longrightarrow>
        (\<exists>vs. map_of entry version_specifiers = Some vs
           \<and> set vs = {v. \<exists>n. (n, d, v) \<in> set (triples ps)}))"
proof -
  obtain rl where rl: "run_triples False (triples ps) [] = Inr rl" "vs_ok (triples ps) rl"
    using run_triples_vs_ok by blast
  have "\<exists>vs. map_of entry version_specifiers = Some vs
           \<and> set vs = {v. \<exists>n. (n, d, v) \<in> set (triples ps)}"
    if "(d, entry) \<in> set rl" for d entry
  proof -
    have "map_of rl d = Some entry" using that vs_ok_distinct[OF rl(2)] by simp
    from vs_ok_Some[OF rl(2) this] show ?thesis by (simp add: set_specifiers_for)
  qed
  then show ?thesis unfolding aggregate_run rl(1) by blast
qed

section \<open>The scenario of two packages\<close>

text \<open>
  C1. Package A requires \<^verbatim>\<open>foo >=1.0\<close> and package B requires \<^verbatim>\<open>foo >=2.0\<close>:
  the aggregated entry of foo lists A with \<^verbatim>\<open>[">=1.0"]\<close>, B with \<^verbatim>\<open>[">=2.0"]\<close>
  and \<^verbatim>\<open>version_specifiers\<close> with both specifiers, so foo is reported as a conflict.
  The names A and B are any two different names other than the reserved key.
\<close>

theorem scenario_two_packages:
  assumes "A \<noteq> B" and "A \<noteq> version_specifiers" and "B \<noteq> version_specifiers"
  shows "\<exists>entry. aggregate [package_of (A, [(''foo'', ''>=1.0'')]),
                              package_of (B, [(''foo'', ''>=2.0'')])] r
                  = Inr [(''foo'', entry)]
           \<and> map_of entry A = Some [''>=1.0'']
           \<and> map_of entry B = Some [''>=2.0'']
           \<and> map_of entry version_specifiers = Some [''>=1.0'', ''>=2.0'']
           \<and> set (map fst entry) = {A, B, version_specifiers}
           \<and> conflict entry = Inr True"
  using assms
  by (auto simp add: aggregate_def build_requirements_list_def package_of_def popitem_def
      record_specifier_def add_version_specifier_def conflict_def)

theorem scenario_two_packages_witness:
  "\<exists>entry. aggregate [package_of (''A'', [(''foo'', ''>=1.0'')]),
                        package_of (''B'', [(''foo'', ''>=2.0'')])] False
              = Inr [(''foo'', entry)]
       \<and> map_of entry ''A'' = Some [''>=1.0'']
       \<and> map_of entry ''B'' = Some [''>=2.0'']
       \<and> map_of entry version_specifiers = Some [''>=1.0'', ''>=2.0'']
       \<and> set (map fst entry) = {''A'', ''B'', version_specifiers}
       \<and> conflict entry = Inr True"
  using scenario_two_packages [of "''A''" "''B''" False]
  by (simp add: version_specifiers_def)

section \<open>When the aggregator raises, and what it keeps\<close>

text \<open>
  C2, as the code has it. When no package is named \<^verbatim>\<open>version_specifiers\<close>: with
  \<^verbatim>\<open>raise_on_confict\<close> the call raises exactly when some (package, dependency) pair is
  recorded a second time, whether the second specifier differs from the first or not,
  and never because two packages name the same dependency; otherwise it returns what it
  returns without the flag. Without the flag the call returns, and the list of a package
  under a dependency holds every specifier the package gave for it, in order, repeated
  ones included.
\<close>

theorem same_package_specifiers:
  assumes "version_specifiers \<notin> fst ` set ps"
  shows "(aggregate (map package_of ps) True = Inl ValueError_multiple
            \<longleftrightarrow> \<not> distinct (recorded_pairs ps))
       \<and> (distinct (recorded_pairs ps) \<longrightarrow>
            aggregate (map package_of ps) True = aggregate (map package_of ps) False)
       \<and> (\<exists>rl. aggregate (map package_of ps) False = Inr rl \<and>
            (\<forall>d entry n. (d, entry) \<in> set rl \<and> n \<noteq> version_specifiers \<longrightarrow>
               map_of entry n =
                 (if specifiers_of (triples ps) d n = [] then None
                  else Some (specifiers_of (triples ps) d n))))"
proof -
  obtain rl where rl: "aggregate (map package_of ps) False = Inr rl" "state_ok (triples ps) rl"
    using aggregate_state_ok[OF assms] by blast
  have 1: "aggregate (map package_of ps) True = Inl ValueError_multiple
            \<longleftrightarrow> \<not> distinct (recorded_pairs ps)"
    by (simp add: aggregate_True[OF assms] rl(1))
  have 2: "distinct (recorded_pairs ps) \<longrightarrow>
            aggregate (map package_of ps) True = aggregate (map package_of ps) False"
    by (simp add: aggregate_True[OF assms])
  have 3: "map_of entry n =
                 (if specifiers_of (triples ps) d n = [] then None
                  else Some (specifiers_of (triples ps) d n))"
    if "(d, entry) \<in> set rl" "n \<noteq> version_specifiers" for d entry n
  proof -
    have "map_of rl d = Some entry" using that(1) state_ok_distinct[OF rl(2)] by simp
    from entry_ok_lookup[OF state_ok_Some[OF rl(2) this] that(2)] show ?thesis .
  qed
  from 1 2 3 rl(1) show ?thesis by blast
qed

theorem same_package_specifiers_witness:
  "version_specifiers \<notin> fst ` set [(''A'', [(''foo'', ''>=1.0''), (''foo'', ''>=1.0'')]),
                                      (''B'', [(''foo'', ''>=2.0'')])]
   \<and> \<not> distinct (recorded_pairs [(''A'', [(''foo'', ''>=1.0''), (''foo'', ''>=1.0'')]),
                                   (''B'', [(''foo'', ''>=2.0'')])])
   \<and> aggregate (map package_of [(''A'', [(''foo'', ''>=1.0''), (''foo'', ''>=1.0'')]),
                                 (''B'', [(''foo'', ''>=2.0'')])]) True
       = Inl ValueError_multiple"
  using same_package_specifiers
    [of "[(''A'', [(''foo'', ''>=1.0''), (''foo'', ''>=1.0'')]), (''B'', [(''foo'', ''>=2.0'')])]"]
  by (simp add: version_specifiers_def recorded_pairs_def triples_def)

text \<open>
  The claim as it is written fails at a package that gives the same specifier twice for
  one dependency: with the flag the call raises although the second specifier is not a
  distinct one, and without the flag the specifier is appended again.
\<close>

theorem identical_specifier_counterexample:
  "aggregate [package_of (''A'', [(''foo'', ''>=1.0''), (''foo'', ''>=1.0'')])] True
     = Inl ValueError_multiple
   \<and> aggregate [package_of (''A'', [(''foo'', ''>=1.0''), (''foo'', ''>=1.0'')])] False
     = Inr [(''foo'', [(''A'', [''>=1.0'', ''>=1.0'']), (version_specifiers, [''>=1.0''])])]"
  by (simp add: aggregate_def build_requirements_list_def package_of_def popitem_def
      record_specifier_def add_version_specifier_def version_specifiers_def)

section \<open>The order of the packages\<close>

text \<open>
  For every input the elements of a dependency's \<^verbatim>\<open>version_specifiers\<close> list are the
  same under every permutation of the packages, and so is the conflict flag when no
  package is named \<^verbatim>\<open>version_specifiers\<close>.
\<close>

lemma version_specifiers_permutation:
  assumes "mset ps = mset qs"
  shows "\<exists>rl rl'. aggregate (map package_of ps) False = Inr rl
       \<and> aggregate (map package_of qs) False = Inr rl'
       \<and> (\<forall>d e e'. (d, e) \<in> set rl \<and> (d, e') \<in> set rl' \<longrightarrow>
            (\<exists>vs vs'. map_of e version_specifiers = Some vs
               \<and> map_of e' version_specifiers = Some vs' \<and> set vs = set vs'))"
proof -
  obtain rl where rl: "aggregate (map package_of ps) False = Inr rl"
    "\<forall>d entry. (d, entry) \<in> set rl \<longrightarrow>
        (\<exists>vs. map_of entry version_specifiers = Some vs
           \<and> set vs = {v. \<exists>n. (n, d, v) \<in> set (triples ps)})"
    using version_specifiers_set[of ps] by blast
  obtain rl' where rl': "aggregate (map package_of qs) False = Inr rl'"
    "\<forall>d entry. (d, entry) \<in> set rl' \<longrightarrow>
        (\<exists>vs. map_of entry version_specifiers = Some vs
           \<and> set vs = {v. \<exists>n. (n, d, v) \<in> set (triples qs)})"
    using version_specifiers_set[of qs] by blast
  have "\<exists>vs vs'. map_of e version_specifiers = Some vs
               \<and> map_of e' version_specifiers = Some vs' \<and> set vs = set vs'"
    if a: "(d, e) \<in> set rl" "(d, e') \<in> set rl'" for d e e'
  proof -
    obtain vs where vs: "map_of e version_specifiers = Some vs"
        "set vs = {v. \<exists>n. (n, d, v) \<in> set (triples ps)}"
      using rl(2) a(1) by blast
    obtain vs' where vs': "map_of e' version_specifiers = Some vs'"
        "set vs' = {v. \<exists>n. (n, d, v) \<in> set (triples qs)}"
      using rl'(2) a(2) by blast
    have "set vs = set vs'"
      using vs(2) vs'(2) triples_permutation[OF assms] by simp
    with vs(1) vs'(1) show ?thesis by blast
  qed
  with rl(1) rl'(1) show ?thesis by blast
qed

lemma conflict_flag_permutation:
  assumes "mset ps = mset qs" and "version_specifiers \<notin> fst ` set ps"
    and "aggregate (map package_of ps) False = Inr rl"
    and "aggregate (map package_of qs) False = Inr rl'"
    and "(d, e) \<in> set rl" and "(d, e') \<in> set rl'"
  shows "conflict e = conflict e'"
proof -
  have no: "version_specifiers \<notin> fst ` set qs"
    using assms(1,2) mset_eq_setD[OF assms(1)] by simp
  have ok: "state_ok (triples ps) rl"
    using aggregate_state_ok[OF assms(2)] assms(3) by auto
  have ok': "state_ok (triples qs) rl'"
    using aggregate_state_ok[OF no] assms(4) by auto
  have "map_of rl d = Some e" using assms(5) state_ok_distinct[OF ok] by simp
  from entry_ok_version_specifiers[OF state_ok_Some[OF ok this]]
  have 1: "conflict e = Inr (card (set (specifiers_for (triples ps) d)) > 1)"
    by (simp add: conflict_def length_first_seen)
  have "map_of rl' d = Some e'" using assms(6) state_ok_distinct[OF ok'] by simp
  from entry_ok_version_specifiers[OF state_ok_Some[OF ok' this]]
  have 2: "conflict e' = Inr (card (set (specifiers_for (triples qs) d)) > 1)"
    by (simp add: conflict_def length_first_seen)
  show ?thesis
    unfolding 1 2 set_specifiers_for triples_permutation[OF assms(1)] ..
qed

text \<open>
  C6. The conflict flag of a dependency depends on the order of the packages when one of
  them is named \<^verbatim>\<open>version_specifiers\<close>: the two packages below give the same specifier
  for foo; with the reserved name first the flag is off, with it last the flag is on. The
  elements of the list are the same in both orders.
\<close>

theorem conflict_flag_order:
  "aggregate [package_of (version_specifiers, [(''foo'', ''==1.0'')]),
              package_of (''A'', [(''foo'', ''==1.0'')])] False
     = Inr [(''foo'', [(version_specifiers, [''==1.0'']), (''A'', [''==1.0''])])]
   \<and> conflict [(version_specifiers, [''==1.0'']), (''A'', [''==1.0''])] = Inr False
   \<and> aggregate [package_of (''A'', [(''foo'', ''==1.0'')]),
                package_of (version_specifiers, [(''foo'', ''==1.0'')])] False
     = Inr [(''foo'', [(''A'', [''==1.0'']), (version_specifiers, [''==1.0'', ''==1.0''])])]
   \<and> conflict [(''A'', [''==1.0'']), (version_specifiers, [''==1.0'', ''==1.0''])] = Inr True"
  by (simp add: aggregate_def build_requirements_list_def package_of_def popitem_def
      record_specifier_def add_version_specifier_def version_specifiers_def conflict_def)

section \<open>The aggregator changes its input\<close>

text \<open>Without the flag the call leaves every dict of the caller's list empty.\<close>

lemma package_loop_emptied:
  "fst (package_loop False (map package_of ps) rl) = map (\<lambda>p. []) ps"
proof (induction ps arbitrary: rl)
  case Nil
  show ?case by simp
next
  case (Cons p ps)
  obtain rl1 where rl1: "deplist_loop False (fst p) (map (\<lambda>x. [x]) (snd p)) rl = Inr rl1"
    using run_triples_False_total[of "map (\<lambda>x. (fst p, fst x, snd x)) (snd p)" rl]
    by (auto simp: deplist_loop_run)
  have "fst (package_loop False (package_of p # map package_of ps) rl)
      = [] # fst (package_loop False (map package_of ps) rl1)"
    by (simp add: package_of_def popitem_def rl1 split: prod.splits)
  then show ?case by (simp add: Cons.IH)
qed

lemma package_list_after_emptied:
  "package_list_after (map package_of ps) False = map (\<lambda>p. []) ps"
  by (simp add: package_list_after_def build_requirements_list_def package_loop_emptied)

text \<open>
  C9. \<^verbatim>\<open>build_requirements_list\<close> is not pure: \<^verbatim>\<open>popitem\<close> removes the one item of
  each dict of the caller's list, so after the call the package's requirements are gone
  from the caller's data, and a second call on the same list raises.
\<close>

theorem popitem_empties_input:
  "package_list_after [package_of (''A'', [(''foo'', ''>=1.0'')])] False = [[]]
   \<and> aggregate (package_list_after [package_of (''A'', [(''foo'', ''>=1.0'')])] False) False
       = Inl KeyError_popitem"
  by (simp add: package_list_after_def aggregate_def build_requirements_list_def package_of_def
      popitem_def record_specifier_def add_version_specifier_def version_specifiers_def)

section \<open>The keys of an entry\<close>

text \<open>
  C10. When no package is named \<^verbatim>\<open>version_specifiers\<close>, the keys of every entry of
  the result are the names of the packages that mention the dependency, each once, and
  the key \<^verbatim>\<open>version_specifiers\<close> once more. A package of that name breaks this: its
  list and the list of the distinct specifiers are one and the same list, which here
  holds one specifier twice and flags a conflict between two packages that agree.
\<close>

theorem entry_keys:
  "(\<forall>ps r rl d entry.
      version_specifiers \<notin> fst ` set ps \<and> aggregate (map package_of ps) r = Inr rl
        \<and> (d, entry) \<in> set rl
      \<longrightarrow> mset (map fst entry) = mset (version_specifiers # packages_mentioning ps d))
   \<and> aggregate (map package_of [(''A'', [(''foo'', ''==1.0'')]),
                                 (version_specifiers, [(''foo'', ''==1.0'')])]) False
       = Inr [(''foo'', [(''A'', [''==1.0'']), (version_specifiers, [''==1.0'', ''==1.0''])])]
   \<and> mset (map fst [(''A'', [''==1.0'']), (version_specifiers, [''==1.0'', ''==1.0''])])
       \<noteq> mset (version_specifiers #
                 packages_mentioning [(''A'', [(''foo'', ''==1.0'')]),
                                      (version_specifiers, [(''foo'', ''==1.0'')])] ''foo'')
   \<and> conflict [(''A'', [''==1.0'']), (version_specifiers, [''==1.0'', ''==1.0''])] = Inr True"
proof -
  have 1: "mset (map fst entry) = mset (version_specifiers # packages_mentioning ps d)"
    if a: "version_specifiers \<notin> fst ` set ps" "aggregate (map package_of ps) r = Inr rl"
      "(d, entry) \<in> set rl" for ps r rl d entry
  proof -
    obtain rl0 where rl0: "aggregate (map package_of ps) False = Inr rl0"
        "state_ok (triples ps) rl0"
      using aggregate_state_ok[OF a(1)] by blast
    have "aggregate (map package_of ps) False = Inr rl"
      using a(2) aggregate_True_success[OF a(1)] by (cases r) simp_all
    then have ok: "state_ok (triples ps) rl" using rl0 by simp
    have "map_of rl d = Some entry" using a(3) state_ok_distinct[OF ok] by simp
    from mset_keys_of_entry[OF a(1) state_ok_Some[OF ok this]] show ?thesis .
  qed
  have 2: "aggregate (map package_of [(''A'', [(''foo'', ''==1.0'')]),
                                 (version_specifiers, [(''foo'', ''==1.0'')])]) False
       = Inr [(''foo'', [(''A'', [''==1.0'']), (version_specifiers, [''==1.0'', ''==1.0''])])]"
    by (simp add: aggregate_def build_requirements_list_def package_of_def popitem_def
        record_specifier_def add_version_specifier_def version_specifiers_def)
  have 3: "mset (map fst [(''A'', [''==1.0'']), (version_specifiers, [''==1.0'', ''==1.0''])])
       \<noteq> mset (version_specifiers #
                 packages_mentioning [(''A'', [(''foo'', ''==1.0'')]),
                                      (version_specifiers, [(''foo'', ''==1.0'')])] ''foo'')"
    by (simp add: packages_mentioning_def version_specifiers_def)
  have 4: "conflict [(''A'', [''==1.0'']), (version_specifiers, [''==1.0'', ''==1.0''])] = Inr True"
    by (simp add: conflict_def version_specifiers_def)
  from 1 2 3 4 show ?thesis by blast
qed

theorem entry_keys_witness:
  "version_specifiers \<notin> fst ` set [(''A'', [(''foo'', ''>=1.0'')]), (''B'', [(''foo'', ''>=2.0'')])]
   \<and> aggregate (map package_of [(''A'', [(''foo'', ''>=1.0'')]), (''B'', [(''foo'', ''>=2.0'')])]) False
       = Inr [(''foo'', [(''A'', [''>=1.0'']), (version_specifiers, [''>=1.0'', ''>=2.0'']),
                         (''B'', [''>=2.0''])])]
   \<and> mset (map fst [(''A'', [''>=1.0'']), (version_specifiers, [''>=1.0'', ''>=2.0'']),
                     (''B'', [''>=2.0''])])
       = mset (version_specifiers #
                 packages_mentioning [(''A'', [(''foo'', ''>=1.0'')]),
                                      (''B'', [(''foo'', ''>=2.0'')])] ''foo'')"
proof -
  let ?ps = "[(''A'', [(''foo'', ''>=1.0'')]), (''B'', [(''foo'', ''>=2.0'')])]"
  let ?e = "[(''A'', [''>=1.0'']), (version_specifiers, [''>=1.0'', ''>=2.0'']),
             (''B'', [''>=2.0''])]"
  have h: "version_specifiers \<notin> fst ` set ?ps"
    by (simp add: version_specifiers_def)
  have a: "aggregate (map package_of ?ps) False = Inr [(''foo'', ?e)]"
    by (simp add: aggregate_def build_requirements_list_def package_of_def popitem_def
        record_specifier_def add_version_specifier_def version_specifiers_def)
  have "version_specifiers \<notin> fst ` set ?ps
        \<and> aggregate (map package_of ?ps) False = Inr [(''foo'', ?e)]
        \<and> (''foo'', ?e) \<in> set [(''foo'', ?e)]
      \<longrightarrow> mset (map fst ?e) = mset (version_specifiers # packages_mentioning ?ps ''foo'')"
    using entry_keys by blast
  with h a show ?thesis by simp
qed

section \<open>Canonical names\<close>

lemma lower_char_idem: "lower_char (lower_char c) = lower_char c"
  by (simp add: lower_char_def)

lemma is_separator_lower: "is_separator (lower_char c) = is_separator c"
  by (simp add: lower_char_def is_separator_def)

lemma is_separator_dash: "is_separator (CHR ''-'')"
  by (simp add: is_separator_def)

lemma lower_char_dash: "lower_char (CHR ''-'') = CHR ''-''"
  by (simp add: lower_char_def)

lemma sub_separators_lower:
  "sub_separators b (map lower_char s) = map lower_char (sub_separators b s)"
  by (induction s arbitrary: b) (simp_all add: is_separator_lower lower_char_dash)

lemma sub_separators_True_head:
  "sub_separators True s = [] \<or> \<not> is_separator (hd (sub_separators True s))"
  by (induction s) simp_all

lemma sub_separators_True_False:
  "s = [] \<or> \<not> is_separator (hd s) \<Longrightarrow> sub_separators True s = sub_separators False s"
  by (cases s) simp_all

lemma sub_separators_idem: "sub_separators False (sub_separators b s) = sub_separators b s"
proof (induction s arbitrary: b)
  case Nil
  show ?case by simp
next
  case (Cons c cs)
  have "sub_separators True (sub_separators True cs) = sub_separators True cs"
    using sub_separators_True_False[OF sub_separators_True_head[of cs]] Cons.IH[of True]
    by simp
  then show ?case
    by (simp add: Cons.IH is_separator_dash)
qed

lemma same_spelling_separator: "same_spelling a b \<Longrightarrow> is_separator a = is_separator b"
  using is_separator_lower[of a] is_separator_lower[of b]
  by (auto simp: same_spelling_def)

lemma same_spelling_sub:
  "list_all2 same_spelling x y \<Longrightarrow>
     map lower_char (sub_separators b x) = map lower_char (sub_separators b y)"
proof (induction x y arbitrary: b rule: list_all2_induct)
  case Nil
  show ?case by simp
next
  case (Cons a x c y)
  show ?case
  proof (cases "is_separator a")
    case True
    then have "is_separator c" using same_spelling_separator[OF Cons.hyps(1)] by simp
    with True show ?thesis by (simp add: Cons.IH)
  next
    case False
    then have c: "\<not> is_separator c" using same_spelling_separator[OF Cons.hyps(1)] by simp
    with False have "lower_char a = lower_char c"
      using Cons.hyps(1) by (simp add: same_spelling_def)
    with False c show ?thesis by (simp add: Cons.IH)
  qed
qed

text \<open>
  C8. Canonicalizing a name twice gives what canonicalizing it once gives, and two
  spellings that differ, character by character, only in letter case or in the separator
  used have the same canonical name.
\<close>

theorem canonicalize_name_idempotent:
  "canonicalize_name (canonicalize_name x) = canonicalize_name x
   \<and> (list_all2 same_spelling x y \<longrightarrow> canonicalize_name x = canonicalize_name y)"
proof -
  have "canonicalize_name (canonicalize_name x) = canonicalize_name x"
    unfolding canonicalize_name_def sub_separators_lower sub_separators_idem
    by (simp add: lower_char_idem)
  moreover have "list_all2 same_spelling x y \<longrightarrow> canonicalize_name x = canonicalize_name y"
    by (simp add: canonicalize_name_def same_spelling_sub)
  ultimately show ?thesis by blast
qed

theorem canonicalize_name_idempotent_witness:
  "list_all2 same_spelling ''Foo_Bar'' ''foo.bar''
   \<and> canonicalize_name ''Foo_Bar'' = ''foo-bar''
   \<and> canonicalize_name ''foo.bar'' = ''foo-bar''
   \<and> canonicalize_name (canonicalize_name ''Foo_Bar'') = canonicalize_name ''Foo_Bar''"
proof -
  have h: "list_all2 same_spelling ''Foo_Bar'' ''foo.bar''"
    by (simp add: same_spelling_def lower_char_def is_separator_def)
  have a: "canonicalize_name ''foo.bar'' = ''foo-bar''"
    by (simp add: canonicalize_name_def lower_char_def is_separator_def)
  have i: "canonicalize_name (canonicalize_name ''Foo_Bar'') = canonicalize_name ''Foo_Bar''"
    using canonicalize_name_idempotent[of "''Foo_Bar''" "''foo.bar''"] by blast
  have "canonicalize_name ''Foo_Bar'' = canonicalize_name ''foo.bar''"
    using canonicalize_name_idempotent[of "''Foo_Bar''" "''foo.bar''"] h by blast
  then have b: "canonicalize_name ''Foo_Bar'' = ''foo-bar''" unfolding a .
  from h a b i show ?thesis by blast
qed

section \<open>The extractor in closed form\<close>

lemma set_fold_set_add: "set (fold set_add xs s) = set xs \<union> set s"
  by (induction xs arbitrary: s) (auto simp: set_add_def)

lemma distinct_fold_set_add: "distinct s \<Longrightarrow> distinct (fold set_add xs s)"
  by (induction xs arbitrary: s) (auto simp: set_add_def)

lemma mset_fold_set_add: "mset (fold set_add xs []) = mset (remdups xs)"
proof -
  have "distinct (fold set_add xs [])" by (simp add: distinct_fold_set_add)
  moreover have "set (fold set_add xs []) = set (remdups xs)" by (simp add: set_fold_set_add)
  ultimately show ?thesis using set_eq_iff_mset_eq_distinct[of "fold set_add xs []" "remdups xs"]
    by simp
qed

lemma union_groups_selected:
  "union_groups kwargs keys metadata s =
    (if selection_fails kwargs metadata keys then Inl TypeError_none
     else Inr (fold set_add (concat (map (group_strings kwargs metadata) keys)) s))"
proof (induction keys arbitrary: s)
  case Nil
  show ?case by (simp add: selection_fails_def)
next
  case (Cons key keys)
  have f: "selection_fails kwargs metadata (key # keys) \<longleftrightarrow>
      (kwargs_get kwargs key \<and> get_requirements key metadata = None)
      \<or> selection_fails kwargs metadata keys"
    by (simp add: selection_fails_def)
  show ?case
  proof (cases "kwargs_get kwargs key")
    case False
    then have "group_strings kwargs metadata key = []" by (simp add: group_strings_def)
    with False show ?thesis by (simp add: f Cons.IH)
  next
    case True
    show ?thesis
    proof (cases "get_requirements key metadata")
      case None
      with True show ?thesis by (simp add: f set_union_def)
    next
      case (Some xs)
      with True have "group_strings kwargs metadata key = xs" by (simp add: group_strings_def)
      with True Some show ?thesis by (simp add: f set_union_def Cons.IH)
    qed
  qed
qed

lemma requirement_of_length:
  "requirement_of s =
    (if length (str_split s) = 2
     then Inr [(canonicalize_name (str_split s ! 0), str_split s ! 1)]
     else Inl ValueError_unpack)"
proof (cases "str_split s")
  case Nil
  then show ?thesis by (simp add: requirement_of_def)
next
  case (Cons a as)
  note outer = Cons
  show ?thesis
  proof (cases as)
    case Nil
    with outer show ?thesis by (simp add: requirement_of_def)
  next
    case (Cons b bs)
    with outer show ?thesis by (cases bs) (simp_all add: requirement_of_def)
  qed
qed

lemma requirement_dicts_closed:
  "requirement_dicts ss =
    (if list_all (\<lambda>s. length (str_split s) = 2) ss
     then Inr (map (\<lambda>s. [(canonicalize_name (str_split s ! 0), str_split s ! 1)]) ss)
     else Inl ValueError_unpack)"
  by (induction ss) (simp_all add: requirement_of_length)

lemma requirements_of_metadata_closed:
  "requirements_of_metadata md kwargs =
    (if selection_fails kwargs md requirement_keys then Inl TypeError_none
     else case name md of
       None \<Rightarrow> Inl KeyError_name
     | Some package_name \<Rightarrow>
        if list_all (\<lambda>s. length (str_split s) = 2) (fold set_add (selected kwargs md) [])
        then Inr [(package_name,
               map (\<lambda>s. [(canonicalize_name (str_split s ! 0), str_split s ! 1)])
                 (fold set_add (selected kwargs md) []))]
        else Inl ValueError_unpack)"
  by (simp add: requirements_of_metadata_def union_groups_selected selected_def
      requirement_dicts_closed split: option.splits)

lemma build_package_requirements_loaded:
  "package_metadata \<noteq> [] \<Longrightarrow> json_loads package_metadata = Inr md \<Longrightarrow>
     build_package_requirements json_loads package_metadata kwargs =
       requirements_of_metadata md kwargs"
  by (simp add: build_package_requirements_def)

section \<open>The union of the requirement strings\<close>

text \<open>
  C3, as the code has it. The requirements of the keys in use are united as strings:
  the result has one entry for each distinct selected string, the entry that string
  denotes. Equal strings give one entry; different strings give an entry each, with the
  same name and different specifiers as well as with the same name and specifier.
\<close>

theorem union_by_requirement_string:
  assumes "package_metadata \<noteq> []" and "json_loads package_metadata = Inr md"
    and "build_package_requirements json_loads package_metadata kwargs = Inr result"
  shows "\<exists>package_name reqs. result = [(package_name, reqs)] \<and> name md = Some package_name
      \<and> image_mset Inr (mset reqs)
          = image_mset requirement_of (mset (remdups (selected kwargs md)))
      \<and> length reqs = card (set (selected kwargs md))"
proof -
  let ?L = "fold set_add (selected kwargs md) []"
  let ?f = "\<lambda>s. [(canonicalize_name (str_split s ! 0), str_split s ! 1)]"
  have r: "requirements_of_metadata md kwargs = Inr result"
    using assms by (simp add: build_package_requirements_loaded)
  then obtain package_name where p: "name md = Some package_name"
      "list_all (\<lambda>s. length (str_split s) = 2) ?L"
      "result = [(package_name, map ?f ?L)]"
    by (auto simp: requirements_of_metadata_closed split: if_splits option.splits)
  have "image_mset requirement_of (mset ?L) = image_mset (\<lambda>s. Inr (?f s)) (mset ?L)"
    using p(2) by (intro image_mset_cong) (simp add: requirement_of_length list_all_iff)
  then have 1: "image_mset Inr (mset (map ?f ?L))
      = image_mset requirement_of (mset (remdups (selected kwargs md)))"
    by (simp add: mset_fold_set_add multiset.map_comp comp_def)
  have "length ?L = card (set ?L)"
    using distinct_card[of ?L] by (simp add: distinct_fold_set_add)
  then have 2: "length (map ?f ?L) = card (set (selected kwargs md))"
    by (simp add: set_fold_set_add)
  from p(1,3) 1 2 show ?thesis by blast
qed

theorem union_by_requirement_string_witness:
  "''{...}'' \<noteq> []
   \<and> build_package_requirements
     (\<lambda>s. Inr \<lparr>name = Some ''pkg'',
               groups = [(''run_requires'',
                          [\<lparr>extra = None, requires = Some [''foo >=1.0'', ''foo >=2.0'']\<rparr>]),
                         (''test_requires'',
                          [\<lparr>extra = None, requires = Some [''foo >=1.0'']\<rparr>])]\<rparr>)
     ''{...}'' []
   = Inr [(''pkg'', [[(''foo'', ''>=1.0'')], [(''foo'', ''>=2.0'')]])]
   \<and> length [[(''foo'', ''>=1.0'')], [(''foo'', ''>=2.0'')]]
       = card (set (selected []
           \<lparr>name = Some ''pkg'',
            groups = [(''run_requires'',
                       [\<lparr>extra = None, requires = Some [''foo >=1.0'', ''foo >=2.0'']\<rparr>]),
                      (''test_requires'',
                       [\<lparr>extra = None, requires = Some [''foo >=1.0'']\<rparr>])]\<rparr>))"
proof -
  let ?md = "\<lparr>name = Some ''pkg'',
               groups = [(''run_requires'',
                          [\<lparr>extra = None, requires = Some [''foo >=1.0'', ''foo >=2.0'']\<rparr>]),
                         (''test_requires'',
                          [\<lparr>extra = None, requires = Some [''foo >=1.0'']\<rparr>])]\<rparr>"
  have h: "''{...}'' \<noteq> []" by simp
  have l: "(\<lambda>s. Inr ?md :: error + metadata) ''{...}'' = Inr ?md" by simp
  have a: "build_package_requirements (\<lambda>s. Inr ?md) ''{...}'' []
     = Inr [(''pkg'', [[(''foo'', ''>=1.0'')], [(''foo'', ''>=2.0'')]])]"
    by (simp add: build_package_requirements_def requirements_of_metadata_def requirement_keys_def
      kwargs_get_def get_requirements_def set_union_def set_add_def requirement_of_def
      str_split_def is_space_def whitespace_def canonicalize_name_def is_separator_def
      lower_char_def)
  from union_by_requirement_string[OF h l a]
  have "length [[(''foo'', ''>=1.0'')], [(''foo'', ''>=2.0'')]] = card (set (selected [] ?md))"
    by auto
  with h a show ?thesis by blast
qed

text \<open>
  The claim as it is written fails at two strings that differ and denote the same pair:
  \<^verbatim>\<open>Sphinx >=1.5.1\<close> among the run requirements and \<^verbatim>\<open>sphinx >=1.5.1\<close> among the test
  requirements give two entries for the pair (sphinx, \<^verbatim>\<open>>=1.5.1\<close>).
\<close>

theorem same_pair_counterexample:
  "build_package_requirements
     (\<lambda>s. Inr \<lparr>name = Some ''pkg'',
               groups = [(''run_requires'',
                          [\<lparr>extra = None, requires = Some [''Sphinx >=1.5.1'']\<rparr>]),
                         (''test_requires'',
                          [\<lparr>extra = None, requires = Some [''sphinx >=1.5.1'']\<rparr>])]\<rparr>)
     ''{...}'' []
   = Inr [(''pkg'', [[(''sphinx'', ''>=1.5.1'')], [(''sphinx'', ''>=1.5.1'')]])]"
  by (simp add: build_package_requirements_def requirements_of_metadata_def requirement_keys_def
      kwargs_get_def get_requirements_def set_union_def set_add_def requirement_of_def
      str_split_def is_space_def whitespace_def canonicalize_name_def is_separator_def
      lower_char_def)

section \<open>Requirement strings of two tokens\<close>

text \<open>
  C7. When the extractor returns, every selected string splits into exactly two tokens,
  and the result has the entry of the canonical first token and the second token. When
  the selection succeeds and the document has a name, a selected string that splits into
  another number of tokens makes the extractor fail with the \<^verbatim>\<open>ValueError\<close> of the
  unpacking.
\<close>

theorem requirement_two_tokens:
  assumes "package_metadata \<noteq> []" and "json_loads package_metadata = Inr md"
  shows "(\<forall>result. build_package_requirements json_loads package_metadata kwargs = Inr result
            \<longrightarrow> (\<exists>package_name reqs. result = [(package_name, reqs)] \<and>
                  (\<forall>s \<in> set (selected kwargs md).
                     length (str_split s) = 2 \<and>
                     [(canonicalize_name (str_split s ! 0), str_split s ! 1)] \<in> set reqs)))
       \<and> (\<not> selection_fails kwargs md requirement_keys \<and> name md \<noteq> None
            \<and> (\<exists>s \<in> set (selected kwargs md). length (str_split s) \<noteq> 2)
          \<longrightarrow> build_package_requirements json_loads package_metadata kwargs
                = Inl ValueError_unpack)"
proof -
  let ?L = "fold set_add (selected kwargs md) []"
  let ?f = "\<lambda>s. [(canonicalize_name (str_split s ! 0), str_split s ! 1)]"
  have b: "build_package_requirements json_loads package_metadata kwargs
      = requirements_of_metadata md kwargs"
    using assms by (rule build_package_requirements_loaded)
  have 1: "\<exists>package_name reqs. result = [(package_name, reqs)] \<and>
                  (\<forall>s \<in> set (selected kwargs md).
                     length (str_split s) = 2 \<and> ?f s \<in> set reqs)"
    if "requirements_of_metadata md kwargs = Inr result" for result
  proof -
    from that obtain package_name where p:
        "list_all (\<lambda>s. length (str_split s) = 2) ?L"
        "result = [(package_name, map ?f ?L)]"
      by (auto simp: requirements_of_metadata_closed split: if_splits option.splits)
    have "\<forall>s \<in> set (selected kwargs md). length (str_split s) = 2 \<and> ?f s \<in> set (map ?f ?L)"
      using p(1) by (simp add: list_all_iff set_fold_set_add)
    with p(2) show ?thesis by blast
  qed
  have 2: "requirements_of_metadata md kwargs = Inl ValueError_unpack"
    if "\<not> selection_fails kwargs md requirement_keys" "name md \<noteq> None"
       "\<exists>s \<in> set (selected kwargs md). length (str_split s) \<noteq> 2"
  proof -
    have "\<not> list_all (\<lambda>s. length (str_split s) = 2) ?L"
      using that(3) by (simp add: list_all_iff set_fold_set_add)
    with that(1,2) show ?thesis
      by (auto simp: requirements_of_metadata_closed)
  qed
  from 1 2 show ?thesis unfolding b by blast
qed

theorem requirement_two_tokens_witness:
  "''{...}'' \<noteq> []
   \<and> \<not> selection_fails []
        \<lparr>name = Some ''pkg'',
         groups = [(''run_requires'',
                    [\<lparr>extra = None, requires = Some [''malformed-no-specifier'']\<rparr>])]\<rparr>
        requirement_keys
   \<and> length (str_split ''malformed-no-specifier'') \<noteq> 2
   \<and> build_package_requirements
       (\<lambda>s. Inr \<lparr>name = Some ''pkg'',
                 groups = [(''run_requires'',
                            [\<lparr>extra = None, requires = Some [''malformed-no-specifier'']\<rparr>])]\<rparr>)
       ''{...}'' []
     = Inl ValueError_unpack"
proof -
  let ?md = "\<lparr>name = Some ''pkg'',
         groups = [(''run_requires'',
                    [\<lparr>extra = None, requires = Some [''malformed-no-specifier'']\<rparr>])]\<rparr>"
  have h: "''{...}'' \<noteq> []" by simp
  have l: "(\<lambda>s. Inr ?md :: error + metadata) ''{...}'' = Inr ?md" by simp
  have f: "\<not> selection_fails [] ?md requirement_keys"
    by (simp add: selection_fails_def requirement_keys_def kwargs_get_def get_requirements_def)
  have n: "name ?md \<noteq> None" by simp
  have t: "length (str_split ''malformed-no-specifier'') \<noteq> 2"
    by (simp add: str_split_def is_space_def whitespace_def)
  have s: "''malformed-no-specifier'' \<in> set (selected [] ?md)"
    by (simp add: selected_def requirement_keys_def group_strings_def kwargs_get_def
        get_requirements_def)
  have "build_package_requirements (\<lambda>s. Inr ?md) ''{...}'' [] = Inl ValueError_unpack"
    using requirement_two_tokens[OF h l, of "[]"] f n t s by blast
  with h f t show ?thesis by blast
qed

section \<open>The sub-group tagged all\<close>

lemma find_filter_single: "filter P gs = [g] \<Longrightarrow> find P gs = Some g"
  by (induction gs) (auto split: if_splits)

lemma union_groups_cong:
  assumes "\<And>key. get_requirements key md' = get_requirements key md"
  shows "union_groups kwargs keys md' s = union_groups kwargs keys md s"
  by (induction keys arbitrary: s) (simp_all add: assms split: sum.splits)

lemma get_requirements_all:
  assumes "map_of (groups md) key = Some gs" and "length gs > 1"
    and "filter (\<lambda>req. extra req = Some ''all'') gs = [g]"
  shows "get_requirements key md = requires g"
  using assms find_filter_single[OF assms(3)] by (simp add: get_requirements_def)

text \<open>
  C4. When a key has several sub-groups and exactly one of them is tagged \<^verbatim>\<open>all\<close>,
  the selection for the key is the \<^verbatim>\<open>requires\<close> of that sub-group, and the extractor
  returns what it returns on the document with that sub-group alone under the key.
\<close>

theorem extra_all_wins:
  assumes "map_of (groups md) key = Some gs" and "length gs > 1"
    and "filter (\<lambda>req. extra req = Some ''all'') gs = [g]"
  shows "get_requirements key md = requires g
     \<and> requirements_of_metadata (md\<lparr>groups := AList.update key [g] (groups md)\<rparr>) kwargs
         = requirements_of_metadata md kwargs"
proof -
  let ?md = "md\<lparr>groups := AList.update key [g] (groups md)\<rparr>"
  have 1: "get_requirements key md = requires g"
    using assms by (rule get_requirements_all)
  have "get_requirements k ?md = get_requirements k md" for k
  proof (cases "k = key")
    case True
    then show ?thesis by (simp add: 1) (simp add: get_requirements_def update_conv')
  next
    case False
    then show ?thesis by (simp add: get_requirements_def update_conv')
  qed
  then have "union_groups kwargs requirement_keys ?md [] = union_groups kwargs requirement_keys md []"
    by (rule union_groups_cong)
  then have "requirements_of_metadata ?md kwargs = requirements_of_metadata md kwargs"
    by (simp add: requirements_of_metadata_def split: sum.splits)
  with 1 show ?thesis by blast
qed

theorem extra_all_wins_witness:
  "map_of (groups \<lparr>name = Some ''pkg'',
                   groups = [(''run_requires'',
                     [\<lparr>extra = Some ''docs'', requires = Some [''sphinx >=1.5.1'']\<rparr>,
                      \<lparr>extra = Some ''all'', requires = Some [''pytest >=3.0'']\<rparr>,
                      \<lparr>extra = Some ''tests'', requires = Some [''isort >=4.3.3'']\<rparr>])]\<rparr>)
      ''run_requires''
    = Some [\<lparr>extra = Some ''docs'', requires = Some [''sphinx >=1.5.1'']\<rparr>,
            \<lparr>extra = Some ''all'', requires = Some [''pytest >=3.0'']\<rparr>,
            \<lparr>extra = Some ''tests'', requires = Some [''isort >=4.3.3'']\<rparr>]
   \<and> get_requirements ''run_requires''
        \<lparr>name = Some ''pkg'',
         groups = [(''run_requires'',
           [\<lparr>extra = Some ''docs'', requires = Some [''sphinx >=1.5.1'']\<rparr>,
            \<lparr>extra = Some ''all'', requires = Some [''pytest >=3.0'']\<rparr>,
            \<lparr>extra = Some ''tests'', requires = Some [''isort >=4.3.3'']\<rparr>])]\<rparr>
      = Some [''pytest >=3.0'']
   \<and> requirements_of_metadata
        \<lparr>name = Some ''pkg'',
         groups = [(''run_requires'',
           [\<lparr>extra = Some ''docs'', requires = Some [''sphinx >=1.5.1'']\<rparr>,
            \<lparr>extra = Some ''all'', requires = Some [''pytest >=3.0'']\<rparr>,
            \<lparr>extra = Some ''tests'', requires = Some [''isort >=4.3.3'']\<rparr>])]\<rparr> []
      = Inr [(''pkg'', [[(''pytest'', ''>=3.0'')]])]"
proof -
  let ?gs = "[\<lparr>extra = Some ''docs'', requires = Some [''sphinx >=1.5.1'']\<rparr>,
            \<lparr>extra = Some ''all'', requires = Some [''pytest >=3.0'']\<rparr>,
            \<lparr>extra = Some ''tests'', requires = Some [''isort >=4.3.3'']\<rparr>]"
  let ?g = "\<lparr>extra = Some ''all'', requires = Some [''pytest >=3.0'']\<rparr>"
  let ?md = "\<lparr>name = Some ''pkg'', groups = [(''run_requires'', ?gs)]\<rparr>"
  have h1: "map_of (groups ?md) ''run_requires'' = Some ?gs" by simp
  have h2: "length ?gs > 1" by simp
  have h3: "filter (\<lambda>req. extra req = Some ''all'') ?gs = [?g]" by simp
  have a: "requirements_of_metadata (?md\<lparr>groups := AList.update ''run_requires'' [?g] (groups ?md)\<rparr>) []
      = Inr [(''pkg'', [[(''pytest'', ''>=3.0'')]])]"
    by (simp add: requirements_of_metadata_def requirement_keys_def
      kwargs_get_def get_requirements_def set_union_def set_add_def requirement_of_def
      str_split_def is_space_def whitespace_def canonicalize_name_def is_separator_def
      lower_char_def)
  from extra_all_wins[OF h1 h2 h3, of "[]"]
  have "get_requirements ''run_requires'' ?md = Some [''pytest >=3.0'']"
    and "requirements_of_metadata ?md [] = Inr [(''pkg'', [[(''pytest'', ''>=3.0'')]])]"
    unfolding a by simp_all
  with h1 show ?thesis by blast
qed

section \<open>The selection that returns nothing\<close>

lemma selection_fails_TypeError:
  "selection_fails kwargs md requirement_keys \<Longrightarrow>
     requirements_of_metadata md kwargs = Inl TypeError_none"
  by (simp add: requirements_of_metadata_closed)

text \<open>
  C5. For a key in use, the selection is \<^verbatim>\<open>None\<close> when the key has two or more
  sub-groups and none is tagged \<^verbatim>\<open>all\<close>, and when the sub-group it selects has no
  \<^verbatim>\<open>requires\<close> key; the extractor then fails with the \<^verbatim>\<open>TypeError\<close> of the union.
\<close>

theorem selection_none_type_error:
  assumes "package_metadata \<noteq> []" and "json_loads package_metadata = Inr md"
    and "key \<in> set requirement_keys" and "kwargs_get kwargs key"
  shows "(\<forall>gs. map_of (groups md) key = Some gs \<and> length gs \<ge> 2
              \<and> (\<forall>g \<in> set gs. extra g \<noteq> Some ''all'')
            \<longrightarrow> get_requirements key md = None)
       \<and> (\<forall>g. map_of (groups md) key = Some [g] \<and> requires g = None
            \<longrightarrow> get_requirements key md = None)
       \<and> (\<forall>gs g. map_of (groups md) key = Some gs \<and> length gs \<ge> 2
              \<and> find (\<lambda>req. extra req = Some ''all'') gs = Some g \<and> requires g = None
            \<longrightarrow> get_requirements key md = None)
       \<and> (get_requirements key md = None
            \<longrightarrow> build_package_requirements json_loads package_metadata kwargs
                  = Inl TypeError_none)"
proof -
  have 1: "get_requirements key md = None"
    if "map_of (groups md) key = Some gs" "length gs \<ge> 2"
       "\<forall>g \<in> set gs. extra g \<noteq> Some ''all''" for gs
  proof -
    have "find (\<lambda>req. extra req = Some ''all'') gs = None"
      using that(3) by (simp add: find_None_iff)
    with that(1,2) show ?thesis by (simp add: get_requirements_def)
  qed
  have 2: "get_requirements key md = None"
    if "map_of (groups md) key = Some [g]" "requires g = None" for g
    using that by (simp add: get_requirements_def)
  have 3: "get_requirements key md = None"
    if "map_of (groups md) key = Some gs" "length gs \<ge> 2"
       "find (\<lambda>req. extra req = Some ''all'') gs = Some g" "requires g = None" for gs g
    using that by (simp add: get_requirements_def)
  have 4: "build_package_requirements json_loads package_metadata kwargs = Inl TypeError_none"
    if "get_requirements key md = None"
  proof -
    have "selection_fails kwargs md requirement_keys"
      unfolding selection_fails_def list_ex_iff using assms(3,4) that by blast
    then show ?thesis
      using assms(1,2) by (simp add: build_package_requirements_loaded selection_fails_TypeError)
  qed
  from 1 2 3 4 show ?thesis by blast
qed

theorem selection_none_type_error_witness:
  "''{...}'' \<noteq> []
   \<and> ''run_requires'' \<in> set requirement_keys
   \<and> kwargs_get [] ''run_requires''
   \<and> get_requirements ''run_requires''
        \<lparr>name = Some ''pkg'',
         groups = [(''run_requires'',
           [\<lparr>extra = Some ''docs'', requires = Some [''sphinx >=1.5.1'']\<rparr>,
            \<lparr>extra = Some ''tests'', requires = Some [''isort >=4.3.3'']\<rparr>])]\<rparr>
      = None
   \<and> build_package_requirements
        (\<lambda>s. Inr \<lparr>name = Some ''pkg'',
           groups = [(''run_requires'',
             [\<lparr>extra = Some ''docs'', requires = Some [''sphinx >=1.5.1'']\<rparr>,
              \<lparr>extra = Some ''tests'', requires = Some [''isort >=4.3.3'']\<rparr>])]\<rparr>)
        ''{...}'' []
      = Inl TypeError_none"
proof -
  let ?gs = "[\<lparr>extra = Some ''docs'', requires = Some [''sphinx >=1.5.1'']\<rparr>,
              \<lparr>extra = Some ''tests'', requires = Some [''isort >=4.3.3'']\<rparr>]"
  let ?md = "\<lparr>name = Some ''pkg'', groups = [(''run_requires'', ?gs)]\<rparr>"
  have h: "''{...}'' \<noteq> []" by simp
  have l: "(\<lambda>s. Inr ?md :: error + metadata) ''{...}'' = Inr ?md" by simp
  have k: "''run_requires'' \<in> set requirement_keys" by (simp add: requirement_keys_def)
  have e: "kwargs_get [] ''run_requires''" by (simp add: kwargs_get_def)
  have g: "map_of (groups ?md) ''run_requires'' = Some ?gs \<and> length ?gs \<ge> 2
              \<and> (\<forall>g \<in> set ?gs. extra g \<noteq> Some ''all'')"
    by simp
  from selection_none_type_error[OF h l k e] g
  have n: "get_requirements ''run_requires'' ?md = None" by blast
  with selection_none_type_error[OF h l k e]
  have "build_package_requirements (\<lambda>s. Inr ?md) ''{...}'' [] = Inl TypeError_none" by blast
  with h k e n show ?thesis by blast
qed

end
